theory Spec2Isabelle
  imports Complex_Main "HOL-Library.Sublist"
begin

section \<open>Data model of main.go\<close>

text \<open>
  The structs of main.go become records. A Go \<open>float64\<close> score read from JSON is a
  finite number; it is only copied and compared with \<open>1.0\<close>, so it is a \<open>real\<close> here.
  A Go \<open>int\<close> is 64 bits wide; the configuration values are compared only, never
  computed with, so they are \<open>int\<close>. The counter \<open>urlIndex\<close> starts at 0 and goes up
  by one in each iteration, far from \<open>2 ^ 63\<close> in any run, so it is a \<open>nat\<close>.

  Field names are the source's, with a prefix where two structs share a name
  (\<open>Audit_Title\<close>, \<open>Item_Impact\<close>, \<open>Req_URL\<close>, \<open>Err_Code\<close>); the field \<open>ScanConfig\<close> of
  \<open>ScanResult\<close> is \<open>Config\<close>, and \<open>ScanTime\<close> is a number read from the clock.
\<close>

text \<open>One entry of \<open>audit.Details.Items\<close>: the located node, the impact, the description.\<close>

record AuditItem =
  Node_Type :: string
  Node_Selector :: string
  Node_Snippet :: string
  Item_Impact :: string
  Item_Description :: string

text \<open>One value of the \<open>Audits\<close> map of a Lighthouse response.\<close>

record Audit =
  Audit_ID :: string
  Audit_Title :: string
  Audit_Description :: string
  Audit_Score :: real
  ScoreDisplayMode :: string
  Details_Type :: string
  Details_Items :: "AuditItem list"

text \<open>
  \<open>LighthouseResult\<close>: the accessibility category and the audits. \<open>Audits\<close> is a Go map
  that the code only ranges over; it is listed here as the pairs (key, value) in the order
  in which that \<open>range\<close> visits them, which Go leaves unspecified.
\<close>

record LighthouseResult =
  Accessibility_Score :: real
  Accessibility_Title :: string
  Audits :: "(string \<times> Audit) list"

record AccessibilityIssue =
  AuditID :: string
  Title :: string
  Description :: string
  Impact :: string
  Selector :: string
  Snippet :: string

record PageResult =
  URL :: string
  AccessibilityScore :: real
  Issues :: "AccessibilityIssue list"
  Error :: string

record ScanConfig =
  MaxPages :: int
  Offset :: int
  Limit :: int

record ScanResult =
  BaseURL :: string
  ScanTime :: nat
  TotalPages :: int
  PageResults :: "PageResult list"
  UrlsDiscovered :: "string list"
  UrlsVisited :: "string list"
  Config :: ScanConfig
  Status :: string

record ScanRequest =
  Req_URL :: string
  Req_MaxPages :: int
  Req_Offset :: int
  Req_Limit :: int

record ErrorResponse =
  Err_Error :: string
  Err_Code :: int
  Err_Message :: string

text \<open>
  \<open>AccessibilityScanner\<close> without its HTTP client, whose answers are the \<open>world\<close> below.
  \<open>visited\<close> is a Go \<open>map[string]bool\<close>.
\<close>

record AccessibilityScanner =
  apiKey :: string
  baseURL :: string
  maxPages :: int
  offset :: int
  limit :: int
  visited :: "string \<rightharpoonup> bool"
  urlsDiscovered :: "string list"

definition NewAccessibilityScanner ::
  "string \<Rightarrow> string \<Rightarrow> int \<Rightarrow> int \<Rightarrow> int \<Rightarrow> AccessibilityScanner" where
  "NewAccessibilityScanner key base maxP off lmt =
     \<lparr>apiKey = key, baseURL = base, maxPages = maxP, offset = off, limit = lmt,
      visited = Map.empty, urlsDiscovered = []\<rparr>"

text \<open>Reading a \<open>map[string]bool\<close> at a missing key gives \<open>false\<close>.\<close>

definition is_visited :: "(string \<rightharpoonup> bool) \<Rightarrow> string \<Rightarrow> bool" where
  "is_visited m k = (case m k of None \<Rightarrow> False | Some b \<Rightarrow> b)"

section \<open>The outside world\<close>

text \<open>
  The node tree that \<open>html.Parse\<close> returns: node type, \<open>Data\<close>, the attributes as
  (key, value) pairs in order, and the children from \<open>FirstChild\<close> along \<open>NextSibling\<close>.
\<close>

datatype NodeType = ErrorNode | TextNode | DocumentNode | ElementNode | CommentNode | DoctypeNode

datatype html_node = Node NodeType string "(string \<times> string) list" "html_node list"

text \<open>
  What lines 286 to 299 make of one \<open>href\<close> value: \<open>url.Parse\<close> fails, or the resolved
  host is not the base host, or the cleaned URL (scheme, host and path) as a string.
\<close>

datatype href = BadHref | OtherHost | SameHost string

text \<open>The answer to the GET of \<open>scanPageWithLighthouse\<close>: an error, or status and body.\<close>

datatype api_reply = TransportError string | HttpResponse int string

text \<open>
  A run makes its calls one loop iteration after the other, and each iteration polls the
  context once and makes at most one audit call and at most one page fetch. So the
  answers a run receives are functions of the iteration number (the value of \<open>urlIndex\<close>
  at the top of the iteration) and of the request:
  \<^item> \<open>ctx_done i\<close>: the context is done when iteration \<open>i\<close> polls it;
  \<^item> \<open>lighthouse i key url\<close>: the reply of the PageSpeed API;
  \<^item> \<open>json_decode body\<close>: the decoded body, or the decoder's error;
  \<^item> \<open>fetch i base url\<close>: the parsed page, or the error of any step of \<open>extractLinks\<close>
    before the tree walk (request, status 400 and above, URL parsing, HTML parsing);
  \<^item> \<open>resolve base page val\<close>: the fate of one \<open>href\<close> value, see \<open>href\<close>;
  \<^item> \<open>now\<close>: the clock at the start; \<open>url_parses\<close>: \<open>url.Parse\<close> succeeds;
    \<open>getenv\<close>: the environment variables.
\<close>

record world =
  ctx_done :: "nat \<Rightarrow> bool"
  lighthouse :: "nat \<Rightarrow> string \<Rightarrow> string \<Rightarrow> api_reply"
  json_decode :: "string \<Rightarrow> string + LighthouseResult"
  fetch :: "nat \<Rightarrow> string \<Rightarrow> string \<Rightarrow> string + html_node"
  resolve :: "string \<Rightarrow> string \<Rightarrow> string \<Rightarrow> href"
  now :: nat
  url_parses :: "string \<Rightarrow> bool"
  getenv :: "string \<Rightarrow> string"

section \<open>scanPageWithLighthouse\<close>

text \<open>The verb \<open>%d\<close> of \<open>fmt.Sprintf\<close>: a decimal number.\<close>

fun show_nat :: "nat \<Rightarrow> string" where
  "show_nat n =
     (if n < 10 then [char_of (48 + n)]
      else show_nat (n div 10) @ [char_of (48 + n mod 10)])"

declare show_nat.simps [simp del]

definition show_int :: "int \<Rightarrow> string" where
  "show_int i = (if i < 0 then CHR ''-'' # show_nat (nat (- i)) else show_nat (nat i))"

text \<open>The issue appended for one item of a failing audit (lines 213 to 221).\<close>

definition item_issue :: "string \<Rightarrow> Audit \<Rightarrow> AuditItem \<Rightarrow> AccessibilityIssue" where
  "item_issue auditID audit item =
     \<lparr>AuditID = auditID, Title = Audit_Title audit, Description = Audit_Description audit,
      Impact = Item_Impact item, Selector = Node_Selector item, Snippet = Node_Snippet item\<rparr>"

text \<open>The issue appended for a failing audit without items (lines 225 to 233).\<close>

definition unknown_issue :: "string \<Rightarrow> Audit \<Rightarrow> AccessibilityIssue" where
  "unknown_issue auditID audit =
     \<lparr>AuditID = auditID, Title = Audit_Title audit, Description = Audit_Description audit,
      Impact = ''unknown'', Selector = '''', Snippet = ''''\<rparr>"

text \<open>The body of the loop over the audits (lines 211 to 235), on \<open>result.Issues\<close>.\<close>

definition audit_step :: "AccessibilityIssue list \<Rightarrow> string \<times> Audit \<Rightarrow> AccessibilityIssue list" where
  "audit_step issues entry =
     (case entry of (auditID, audit) \<Rightarrow>
        if ScoreDisplayMode audit = ''binary'' \<and> Audit_Score audit < 1 then
          let issues1 = foldl (\<lambda>acc item. acc @ [item_issue auditID audit item])
                          issues (Details_Items audit)
          in if length (Details_Items audit) = 0
             then issues1 @ [unknown_issue auditID audit]
             else issues1
        else issues)"

definition scanPageWithLighthouse ::
  "world \<Rightarrow> nat \<Rightarrow> AccessibilityScanner \<Rightarrow> string \<Rightarrow> PageResult" where
  "scanPageWithLighthouse w i s pageURL =
     (let result = \<lparr>URL = pageURL, AccessibilityScore = 0, Issues = [], Error = ''''\<rparr>
      in case lighthouse w i (apiKey s) pageURL of
           TransportError err \<Rightarrow>
             result\<lparr>Error := ''Failed to call Lighthouse API: '' @ err\<rparr>
         | HttpResponse status body \<Rightarrow>
             if status \<noteq> 200 then
               result\<lparr>Error := ''Lighthouse API error (status '' @ show_int status
                                   @ ''): '' @ body\<rparr>
             else
               (case json_decode w body of
                  Inl err \<Rightarrow>
                    result\<lparr>Error := ''Failed to decode Lighthouse response: '' @ err\<rparr>
                | Inr lighthouseResult \<Rightarrow>
                    result\<lparr>AccessibilityScore := Accessibility_Score lighthouseResult,
                           Issues := foldl audit_step (Issues result)
                                       (Audits lighthouseResult)\<rparr>))"

text \<open>
  The specification's words for the issues of one audit entry: a binary audit with a
  score below 1 gives one issue per item, or the single issue with impact unknown when
  it has no item; any other audit gives none.
\<close>

definition spec_audit_issues :: "string \<times> Audit \<Rightarrow> AccessibilityIssue list" where
  "spec_audit_issues entry =
     (if ScoreDisplayMode (snd entry) = ''binary'' \<and> Audit_Score (snd entry) < 1 then
        (if Details_Items (snd entry) = [] then [unknown_issue (fst entry) (snd entry)]
         else map (item_issue (fst entry) (snd entry)) (Details_Items (snd entry)))
      else [])"

text \<open>The replies on which the audit call fails: no reply, a status other than 200, a
  body that does not decode.\<close>

definition audit_fails :: "world \<Rightarrow> api_reply \<Rightarrow> bool" where
  "audit_fails w reply =
     (case reply of
        TransportError err \<Rightarrow> True
      | HttpResponse status body \<Rightarrow> status \<noteq> 200 \<or> isl (json_decode w body))"

section \<open>extractLinks\<close>

text \<open>
  Lines 301 to 321, for one cleaned URL: a URL already in \<open>links\<close> changes nothing;
  a new one is appended to \<open>links\<close>, and to \<open>s.urlsDiscovered\<close> unless it is there.
  The pair is (\<open>links\<close>, \<open>s.urlsDiscovered\<close>).
\<close>

definition record_link :: "string \<Rightarrow> string list \<times> string list \<Rightarrow> string list \<times> string list" where
  "record_link finalURL acc =
     (case acc of (links, discovered) \<Rightarrow>
        if finalURL \<in> set links then (links, discovered)
        else (links @ [finalURL],
              if finalURL \<in> set discovered then discovered else discovered @ [finalURL]))"

text \<open>
  The loop over the attributes of an anchor (lines 284 to 326): an attribute that is not
  \<open>href\<close> is passed over; an \<open>href\<close> that does not parse is passed over as well
  (\<open>continue\<close>); the first \<open>href\<close> that parses ends the loop (\<open>break\<close>), recorded when it
  stays on the base host.
\<close>

fun scan_attrs ::
  "(string \<Rightarrow> href) \<Rightarrow> (string \<times> string) list \<Rightarrow> string list \<times> string list
     \<Rightarrow> string list \<times> string list" where
  "scan_attrs rs [] acc = acc"
| "scan_attrs rs ((k, v) # attrs) acc =
     (if k = ''href'' then
        (case rs v of
           BadHref \<Rightarrow> scan_attrs rs attrs acc
         | OtherHost \<Rightarrow> acc
         | SameHost finalURL \<Rightarrow> record_link finalURL acc)
      else scan_attrs rs attrs acc)"

text \<open>The closure \<open>findLinks\<close> (lines 282 to 331): the node itself, then its children in order.\<close>

fun findLinks ::
  "(string \<Rightarrow> href) \<Rightarrow> html_node \<Rightarrow> string list \<times> string list \<Rightarrow> string list \<times> string list" where
  "findLinks rs (Node t d attrs children) acc =
     fold (findLinks rs) children
       (if t = ElementNode \<and> d = ''a'' then scan_attrs rs attrs acc else acc)"

text \<open>
  \<open>extractLinks\<close>, called in iteration \<open>i\<close>: the error, or the links, and the scanner
  with its \<open>urlsDiscovered\<close> as the tree walk leaves it.
\<close>

definition extractLinks ::
  "world \<Rightarrow> nat \<Rightarrow> AccessibilityScanner \<Rightarrow> string
     \<Rightarrow> (string + string list) \<times> AccessibilityScanner" where
  "extractLinks w i s pageURL =
     (case fetch w i (baseURL s) pageURL of
        Inl err \<Rightarrow> (Inl err, s)
      | Inr doc \<Rightarrow>
          (case findLinks (resolve w (baseURL s) pageURL) doc ([], urlsDiscovered s) of
             (links, discovered) \<Rightarrow> (Inr links, s\<lparr>urlsDiscovered := discovered\<rparr>)))"

section \<open>crawlAndScan\<close>

text \<open>
  The loop over the links of a page (lines 372 to 377 and again 392 to 397), on
  \<open>s.visited\<close> and \<open>queue\<close>.
\<close>

fun enqueue_links ::
  "int \<Rightarrow> string list \<Rightarrow> (string \<rightharpoonup> bool) \<Rightarrow> string list
     \<Rightarrow> (string \<rightharpoonup> bool) \<times> string list" where
  "enqueue_links maxP [] vis q = (vis, q)"
| "enqueue_links maxP (link # links) vis q =
     (if \<not> is_visited vis link \<and> int (length q) < maxP
      then enqueue_links maxP links (vis(link \<mapsto> True)) (q @ [link])
      else enqueue_links maxP links vis q)"

text \<open>
  Lines 370 to 378 and again 390 to 398: extract the links of the current page and, when
  that did not fail, enqueue them. The scanner and the queue come back.
\<close>

definition follow_links ::
  "world \<Rightarrow> nat \<Rightarrow> AccessibilityScanner \<Rightarrow> string list \<Rightarrow> string
     \<Rightarrow> AccessibilityScanner \<times> string list" where
  "follow_links w i s q currentURL =
     (case extractLinks w i s currentURL of
        (Inl err, s1) \<Rightarrow> (s1, q)
      | (Inr links, s1) \<Rightarrow>
          (case enqueue_links (maxPages s1) links (visited s1) q of
             (vis, q1) \<Rightarrow> (s1\<lparr>visited := vis\<rparr>, q1)))"

text \<open>The variables of the loop: the scanner \<open>s\<close>, \<open>result\<close>, \<open>queue\<close> and \<open>urlIndex\<close>.\<close>

record crawl_state =
  scanner :: AccessibilityScanner
  result :: ScanResult
  queue :: "string list"
  urlIndex :: nat

text \<open>The condition of the \<open>for\<close> loop (line 356).\<close>

definition loop_cond :: "crawl_state \<Rightarrow> bool" where
  "loop_cond st \<longleftrightarrow>
     length (queue st) > 0 \<and> int (length (PageResults (result st))) < limit (scanner st)"

text \<open>
  One iteration (lines 357 to 399). The \<open>break\<close> of line 360 stands in a \<open>select\<close>, and
  in Go a \<open>break\<close> without label leaves the innermost \<open>for\<close>, \<open>switch\<close> or \<open>select\<close>:
  it leaves the \<open>select\<close>, and the iteration goes on at line 364. The iteration runs under
  the loop condition only, so the queue has a head; \<open>time.Sleep\<close> changes no variable.
\<close>

definition loop_body :: "world \<Rightarrow> crawl_state \<Rightarrow> crawl_state" where
  "loop_body w st0 =
     (let st = (if ctx_done w (urlIndex st0)
                then st0\<lparr>result := (result st0)\<lparr>Status := ''cancelled''\<rparr>\<rparr>
                else st0)
      in case queue st of
           [] \<Rightarrow> st
         | currentURL # q \<Rightarrow>
             if int (urlIndex st) < offset (scanner st) then
               (if int (length q) < maxPages (scanner st) then
                  (case follow_links w (urlIndex st) (scanner st) q currentURL of
                     (s1, q1) \<Rightarrow> st\<lparr>scanner := s1, queue := q1, urlIndex := urlIndex st + 1\<rparr>)
                else st\<lparr>queue := q, urlIndex := urlIndex st + 1\<rparr>)
             else
               (let pageResult = scanPageWithLighthouse w (urlIndex st) (scanner st) currentURL;
                    res = (result st)\<lparr>PageResults := PageResults (result st) @ [pageResult]\<rparr>
                in if Error pageResult = '''' \<and> int (length q) < maxPages (scanner st) then
                     (case follow_links w (urlIndex st) (scanner st) q currentURL of
                        (s1, q1) \<Rightarrow>
                          st\<lparr>scanner := s1, result := res, queue := q1,
                             urlIndex := urlIndex st + 1\<rparr>)
                   else st\<lparr>result := res, queue := q, urlIndex := urlIndex st + 1\<rparr>))"

text \<open>
  The loop. It ends: an iteration below the offset moves \<open>urlIndex\<close> towards the offset,
  any other iteration adds a page result, and the loop condition keeps their number below
  the limit.
\<close>

function crawl_loop :: "world \<Rightarrow> crawl_state \<Rightarrow> crawl_state" where
  "crawl_loop w st = (if loop_cond st then crawl_loop w (loop_body w st) else st)"
  by pat_completeness auto
termination
proof (relation "measure (\<lambda>(w, st).
          nat (offset (scanner st) - int (urlIndex st))
          + (nat (limit (scanner st)) - length (PageResults (result st))))")
  show "wf (measure (\<lambda>(w, st).
          nat (offset (scanner st) - int (urlIndex st))
          + (nat (limit (scanner st)) - length (PageResults (result st)))))"
    by simp
next
  fix w :: world and st :: crawl_state
  assume c: "loop_cond st"
  obtain u q where q: "queue st = u # q"
    using c by (cases "queue st") (simp_all add: loop_cond_def)
  have lim: "length (PageResults (result st)) < nat (limit (scanner st))"
    using c unfolding loop_cond_def by linarith
  have cfg: "offset (scanner (loop_body w st)) = offset (scanner st)
             \<and> limit (scanner (loop_body w st)) = limit (scanner st)
             \<and> urlIndex (loop_body w st) = urlIndex st + 1"
    using q by (simp add: loop_body_def follow_links_def extractLinks_def Let_def
        split: prod.splits sum.splits)
  have len: "length (PageResults (result (loop_body w st)))
             = (if int (urlIndex st) < offset (scanner st)
                then length (PageResults (result st))
                else length (PageResults (result st)) + 1)"
    using q by (simp add: loop_body_def follow_links_def extractLinks_def Let_def
        split: prod.splits sum.splits)
  show "((w, loop_body w st), (w, st)) \<in> measure (\<lambda>(w, st).
          nat (offset (scanner st) - int (urlIndex st))
          + (nat (limit (scanner st)) - length (PageResults (result st))))"
  proof (cases "int (urlIndex st) < offset (scanner st)")
    case True
    then have "nat (offset (scanner st) - int (urlIndex st + 1))
               < nat (offset (scanner st) - int (urlIndex st))"
      by linarith
    with True show ?thesis
      by (simp only: in_measure prod.case cfg len if_True)
  next
    case False
    then have "nat (offset (scanner st) - int (urlIndex st + 1)) = 0"
      and "nat (offset (scanner st) - int (urlIndex st)) = 0"
      by linarith+
    with False lim show ?thesis
      by (simp only: in_measure prod.case cfg len if_False)
  qed
qed

declare crawl_loop.simps [simp del]

text \<open>The state with which the loop starts (lines 339 to 354).\<close>

definition crawl_init :: "world \<Rightarrow> AccessibilityScanner \<Rightarrow> crawl_state" where
  "crawl_init w s =
     \<lparr>scanner = s\<lparr>visited := (visited s)(baseURL s \<mapsto> True),
                  urlsDiscovered := urlsDiscovered s @ [baseURL s]\<rparr>,
      result = \<lparr>BaseURL = baseURL s, ScanTime = now w, TotalPages = 0, PageResults = [],
                UrlsDiscovered = [], UrlsVisited = [],
                Config = \<lparr>MaxPages = maxPages s, Offset = offset s, Limit = limit s\<rparr>,
                Status = ''completed''\<rparr>,
      queue = [baseURL s],
      urlIndex = 0\<rparr>"

text \<open>After the loop (lines 402 to 424): the counts, the lists and the status.\<close>

definition crawl_finish :: "crawl_state \<Rightarrow> ScanResult" where
  "crawl_finish st =
     (let res = (result st)
            \<lparr>TotalPages := int (length (PageResults (result st))),
             UrlsDiscovered := urlsDiscovered (scanner st),
             UrlsVisited := foldl (\<lambda>acc pageResult. acc @ [URL pageResult])
                              (UrlsVisited (result st)) (PageResults (result st))\<rparr>
      in if Status res \<noteq> ''cancelled'' \<and> length (PageResults res) = 0 then
           res\<lparr>Status := ''failed''\<rparr>
         else if Status res \<noteq> ''cancelled'' then
           (if list_ex (\<lambda>page. Error page \<noteq> '''') (PageResults res)
            then res\<lparr>Status := ''partial''\<rparr> else res)
         else res)"

text \<open>The loop variables when the loop has ended, and \<open>crawlAndScan\<close> itself.\<close>

definition crawl_final :: "world \<Rightarrow> AccessibilityScanner \<Rightarrow> crawl_state" where
  "crawl_final w s = crawl_loop w (crawl_init w s)"

definition crawlAndScan :: "world \<Rightarrow> AccessibilityScanner \<Rightarrow> ScanResult" where
  "crawlAndScan w s = crawl_finish (crawl_final w s)"

text \<open>
  The loop variables at the top of iteration \<open>k\<close>, or as the loop left them when it ended
  before: the same loop, cut after \<open>k\<close> iterations.
\<close>

fun crawl_iter :: "world \<Rightarrow> nat \<Rightarrow> crawl_state \<Rightarrow> crawl_state" where
  "crawl_iter w 0 st = st"
| "crawl_iter w (Suc k) st = (if loop_cond st then crawl_iter w k (loop_body w st) else st)"

section \<open>handleScan\<close>

definition getAPIKey :: "world \<Rightarrow> string" where
  "getAPIKey w =
     (if getenv w ''GOOGLE_API_KEY'' \<noteq> '''' then getenv w ''GOOGLE_API_KEY''
      else if getenv w ''PAGESPEED_API_KEY'' \<noteq> '''' then getenv w ''PAGESPEED_API_KEY''
      else if getenv w ''LIGHTHOUSE_API_KEY'' \<noteq> '''' then getenv w ''LIGHTHOUSE_API_KEY''
      else '''')"

definition sendError :: "string \<Rightarrow> int \<Rightarrow> string \<Rightarrow> ErrorResponse" where
  "sendError err code message = \<lparr>Err_Error = err, Err_Code = code, Err_Message = message\<rparr>"

text \<open>
  \<open>handleScan\<close> on a request with the given method and body; the body is \<open>None\<close> when it
  is not JSON for a \<open>ScanRequest\<close>, and a field absent from the JSON is zero or empty.
  What is written back is the error response or the scan result.
\<close>

definition handleScan :: "world \<Rightarrow> string \<Rightarrow> ScanRequest option \<Rightarrow> ErrorResponse + ScanResult" where
  "handleScan w method body =
     (if method \<noteq> ''POST'' then
        Inl (sendError ''Method not allowed'' 405 ''Only POST method is supported'')
      else case body of
        None \<Rightarrow> Inl (sendError ''Invalid JSON'' 400 ''Request body must be valid JSON'')
      | Some req0 \<Rightarrow>
          if Req_URL req0 = '''' then
            Inl (sendError ''Missing URL'' 400 ''URL is required'')
          else if \<not> url_parses w (Req_URL req0) then
            Inl (sendError ''Invalid URL'' 400 ''URL must be valid'')
          else
            (let req1 = (if Req_MaxPages req0 = 0 then req0\<lparr>Req_MaxPages := 50\<rparr> else req0);
                 req = (if Req_Limit req1 = 0 then req1\<lparr>Req_Limit := 5\<rparr> else req1)
             in if Req_MaxPages req < 1 \<or> Req_MaxPages req > 1000 then
                  Inl (sendError ''Invalid max_pages'' 400 ''max_pages must be between 1 and 1000'')
                else if Req_Limit req < 1 \<or> Req_Limit req > 100 then
                  Inl (sendError ''Invalid limit'' 400 ''limit must be between 1 and 100'')
                else if Req_Offset req < 0 then
                  Inl (sendError ''Invalid offset'' 400 ''offset cannot be negative'')
                else if getAPIKey w = '''' then
                  Inl (sendError ''Configuration error'' 500 ''Google API key not configured'')
                else
                  Inr (crawlAndScan w
                         (NewAccessibilityScanner (getAPIKey w) (Req_URL req)
                            (Req_MaxPages req) (Req_Offset req) (Req_Limit req)))))"

section \<open>The specification's status classifier\<close>

text \<open>
  The specification's words: cancelled when the cancellation signal was observed;
  otherwise failed when no page outcome was produced; otherwise partial when at least one
  page outcome carries an error; otherwise completed.
\<close>

definition status_classifier :: "bool \<Rightarrow> PageResult list \<Rightarrow> string" where
  "status_classifier cancelled outcomes =
     (if cancelled then ''cancelled''
      else if outcomes = [] then ''failed''
      else if (\<exists>p \<in> set outcomes. Error p \<noteq> '''') then ''partial''
      else ''completed'')"

section \<open>Statements about a run\<close>

text \<open>
  The cancellation signal was seen by one of the first \<open>n\<close> iterations. Iteration \<open>i\<close>
  is the one that starts with \<open>urlIndex = i\<close>, so for a finished run \<open>n\<close> is the final
  \<open>urlIndex\<close>.
\<close>

definition cancel_seen :: "world \<Rightarrow> nat \<Rightarrow> bool" where
  "cancel_seen w n = list_ex (ctx_done w) [0..<n]"

text \<open>
  Page result \<open>p\<close> was produced by iteration \<open>k\<close> of the run of scanner \<open>s\<close>: the loop
  was still running at the top of that iteration, the URL at the head of the queue was
  the URL of \<open>p\<close>, its rank \<open>urlIndex\<close> was \<open>k\<close> and not below the offset, and the
  iteration appended \<open>p\<close> to the page results.
\<close>

definition audited_at :: "world \<Rightarrow> AccessibilityScanner \<Rightarrow> nat \<Rightarrow> PageResult \<Rightarrow> bool" where
  "audited_at w s k p \<longleftrightarrow>
     (let st = crawl_iter w k (crawl_init w s)
      in loop_cond st
         \<and> (case queue st of [] \<Rightarrow> False | currentURL # q \<Rightarrow> currentURL = URL p)
         \<and> urlIndex st = k
         \<and> offset s \<le> int (urlIndex st)
         \<and> PageResults (result (loop_body w st)) = PageResults (result st) @ [p])"

text \<open>The two range errors of \<open>handleScan\<close> (lines 463 and 467).\<close>

definition invalid_max_pages :: "ErrorResponse + ScanResult" where
  "invalid_max_pages =
     Inl (sendError ''Invalid max_pages'' 400 ''max_pages must be between 1 and 1000'')"

definition invalid_limit :: "ErrorResponse + ScanResult" where
  "invalid_limit = Inl (sendError ''Invalid limit'' 400 ''limit must be between 1 and 100'')"

section \<open>Loop invariants\<close>

text \<open>
  The URLs audited so far and the URLs waiting in the queue are pairwise distinct and all
  marked visited; \<open>result.UrlsVisited\<close> stays empty until the loop has ended.
\<close>

definition audited_once :: "crawl_state \<Rightarrow> bool" where
  "audited_once st \<longleftrightarrow>
     distinct (map URL (PageResults (result st)) @ queue st)
     \<and> (\<forall>x \<in> set (map URL (PageResults (result st)) @ queue st).
           is_visited (visited (scanner st)) x)
     \<and> UrlsVisited (result st) = []"

text \<open>\<open>result.Status\<close> is cancelled once the signal was seen, and completed until then.\<close>

definition status_tracks :: "world \<Rightarrow> crawl_state \<Rightarrow> bool" where
  "status_tracks w st \<longleftrightarrow>
     Status (result st) = (if cancel_seen w (urlIndex st) then ''cancelled'' else ''completed'')"

text \<open>
  The state is the one at the top of iteration \<open>urlIndex\<close>, the page results are within
  the limit, and each of them was produced by an iteration at or after the offset.
\<close>

definition in_window :: "world \<Rightarrow> AccessibilityScanner \<Rightarrow> crawl_state \<Rightarrow> bool" where
  "in_window w s st \<longleftrightarrow>
     st = crawl_iter w (urlIndex st) (crawl_init w s)
     \<and> offset (scanner st) = offset s \<and> limit (scanner st) = limit s
     \<and> int (length (PageResults (result st))) \<le> limit s
     \<and> (\<forall>p \<in> set (PageResults (result st)). \<exists>k. audited_at w s k p)"

definition config_kept :: "AccessibilityScanner \<Rightarrow> crawl_state \<Rightarrow> bool" where
  "config_kept s st \<longleftrightarrow>
     Config (result st) = \<lparr>MaxPages = maxPages s, Offset = offset s, Limit = limit s\<rparr>"

text \<open>
  During the tree walk: \<open>links\<close> and \<open>s.urlsDiscovered\<close> have no duplicates, every link
  is in \<open>s.urlsDiscovered\<close>, and nothing of the earlier record \<open>d0\<close> is lost.
\<close>

definition links_ok :: "string list \<Rightarrow> string list \<times> string list \<Rightarrow> bool" where
  "links_ok d0 acc \<longleftrightarrow>
     distinct (fst acc) \<and> distinct (snd acc) \<and> set (fst acc) \<subseteq> set (snd acc)
     \<and> set d0 \<subseteq> set (snd acc)"

definition discovered_ok :: "crawl_state \<Rightarrow> bool" where
  "discovered_ok st \<longleftrightarrow>
     distinct (urlsDiscovered (scanner st))
     \<and> set (map URL (PageResults (result st))) \<union> set (queue st)
         \<subseteq> set (urlsDiscovered (scanner st))"

section \<open>Example worlds\<close>

text \<open>A world in which nothing is cancelled, every audit passes and no page can be fetched.\<close>

definition quiet_world :: world where
  "quiet_world =
     \<lparr>ctx_done = (\<lambda>i. False),
      lighthouse = (\<lambda>i key u. HttpResponse 200 ''{}''),
      json_decode = (\<lambda>body. Inr \<lparr>Accessibility_Score = 1, Accessibility_Title = '''', Audits = []\<rparr>),
      fetch = (\<lambda>i base u. Inl ''no route''),
      resolve = (\<lambda>base page val. SameHost val),
      now = 0,
      url_parses = (\<lambda>u. True),
      getenv = (\<lambda>name. if name = ''GOOGLE_API_KEY'' then ''k'' else '''')\<rparr>"

text \<open>A page whose body holds one anchor for each of the given \<open>href\<close> values.\<close>

definition anchors :: "string list \<Rightarrow> html_node" where
  "anchors hrefs =
     Node DocumentNode '''' []
       [Node ElementNode ''html'' []
          [Node ElementNode ''body'' []
             (map (\<lambda>h. Node ElementNode ''a'' [(''class'', ''nav''), (''href'', h)] []) hrefs)]]"

text \<open>
  The site of the specification's scenario: \<open>A\<close> links to \<open>B\<close> and \<open>C\<close>, \<open>B\<close> links to
  \<open>D\<close> and \<open>A\<close>.
\<close>

definition spec_site :: world where
  "spec_site = quiet_world
     \<lparr>fetch := (\<lambda>i base u.
         if u = ''A'' then Inr (anchors [''B'', ''C''])
         else if u = ''B'' then Inr (anchors [''D'', ''A''])
         else Inr (anchors []))\<rparr>"

text \<open>\<open>A\<close> links to \<open>B\<close> and \<open>C\<close>, \<open>B\<close> to \<open>D\<close> and \<open>C\<close>, \<open>D\<close> to \<open>C\<close>.\<close>

definition small_site :: world where
  "small_site = quiet_world
     \<lparr>fetch := (\<lambda>i base u.
         if u = ''A'' then Inr (anchors [''B'', ''C''])
         else if u = ''B'' then Inr (anchors [''D'', ''C''])
         else if u = ''D'' then Inr (anchors [''C''])
         else Inr (anchors []))\<rparr>"

text \<open>The same site, with the context done before the first iteration.\<close>

definition cancelled_site :: world where
  "cancelled_site = small_site\<lparr>ctx_done := (\<lambda>i. True)\<rparr>"

text \<open>
  A Lighthouse result with a failing binary audit with two items, a failing binary audit
  without items, a passing binary audit and a failing audit that is not binary.
\<close>

definition sample_report :: LighthouseResult where
  "sample_report =
     \<lparr>Accessibility_Score = 0.5, Accessibility_Title = ''Accessibility'',
      Audits =
        [(''image-alt'',
          \<lparr>Audit_ID = ''image-alt'', Audit_Title = ''Images lack alt text'',
           Audit_Description = ''alt'', Audit_Score = 0, ScoreDisplayMode = ''binary'',
           Details_Type = ''table'',
           Details_Items =
             [\<lparr>Node_Type = ''node'', Node_Selector = ''img.a'', Node_Snippet = ''<img>'',
               Item_Impact = ''critical'', Item_Description = ''''\<rparr>,
              \<lparr>Node_Type = ''node'', Node_Selector = ''img.b'', Node_Snippet = ''<img/>'',
               Item_Impact = ''serious'', Item_Description = ''''\<rparr>]\<rparr>),
         (''bypass'',
          \<lparr>Audit_ID = ''bypass'', Audit_Title = ''No skip link'',
           Audit_Description = ''skip'', Audit_Score = 0, ScoreDisplayMode = ''binary'',
           Details_Type = '''', Details_Items = []\<rparr>),
         (''html-has-lang'',
          \<lparr>Audit_ID = ''html-has-lang'', Audit_Title = ''Has lang'',
           Audit_Description = ''lang'', Audit_Score = 1, ScoreDisplayMode = ''binary'',
           Details_Type = '''', Details_Items = []\<rparr>),
         (''focus-traps'',
          \<lparr>Audit_ID = ''focus-traps'', Audit_Title = ''Focus'',
           Audit_Description = ''focus'', Audit_Score = 0, ScoreDisplayMode = ''manual'',
           Details_Type = '''', Details_Items = []\<rparr>)]\<rparr>"

text \<open>
  The audit of \<open>A\<close> succeeds with that result; the audit of \<open>B\<close> gets no reply, that of
  \<open>C\<close> status 500, and any other a body that does not decode.
\<close>

definition audit_world :: world where
  "audit_world = quiet_world
     \<lparr>lighthouse := (\<lambda>i key u.
         if u = ''A'' then HttpResponse 200 ''report''
         else if u = ''B'' then TransportError ''timeout''
         else if u = ''C'' then HttpResponse 500 ''quota''
         else HttpResponse 200 ''<html>''),
      json_decode := (\<lambda>body.
         if body = ''report'' then Inr sample_report else Inl ''invalid character'')\<rparr>"

definition sample_scanner :: AccessibilityScanner where
  "sample_scanner = NewAccessibilityScanner ''k'' ''A'' 3 1 2"

definition zero_request :: ScanRequest where
  "zero_request = \<lparr>Req_URL = ''A'', Req_MaxPages = 0, Req_Offset = 0, Req_Limit = 0\<rparr>"

section \<open>scanPageWithLighthouse: the issue list and the failures\<close>

lemma foldl_item_issue:
  "foldl (\<lambda>acc item. acc @ [item_issue auditID audit item]) issues items
     = issues @ map (item_issue auditID audit) items"
  by (induction items arbitrary: issues) simp_all

lemma audit_step_spec: "audit_step issues entry = issues @ spec_audit_issues entry"
  by (cases entry) (simp add: audit_step_def spec_audit_issues_def foldl_item_issue)

lemma foldl_audit_step:
  "foldl audit_step issues audits = issues @ concat (map spec_audit_issues audits)"
  by (induction audits arbitrary: issues) (simp_all add: audit_step_spec)

lemma scan_URL: "URL (scanPageWithLighthouse w i s u) = u"
  by (simp add: scanPageWithLighthouse_def Let_def split: api_reply.splits sum.splits)

text \<open>
  C7. On a successful audit response (status 200, body decoded) the issue list of the
  page result is, audit entry after audit entry in the order of the range, what the
  specification says of that entry: for a binary audit with a score below 1 one issue
  per item, or the one issue with impact unknown and empty selector and snippet when it
  has no item; nothing for an audit that passes or is not binary.
\<close>

theorem scan_issues_per_audit:
  "lighthouse w i (apiKey s) pageURL = HttpResponse 200 body \<Longrightarrow>
   json_decode w body = Inr lr \<Longrightarrow>
   Issues (scanPageWithLighthouse w i s pageURL) = concat (map spec_audit_issues (Audits lr))
   \<and> Error (scanPageWithLighthouse w i s pageURL) = ''''
   \<and> (\<forall>entry \<in> set (Audits lr).
        \<not> (ScoreDisplayMode (snd entry) = ''binary'' \<and> Audit_Score (snd entry) < 1)
          \<longrightarrow> spec_audit_issues entry = [])
   \<and> (\<forall>entry \<in> set (Audits lr).
        ScoreDisplayMode (snd entry) = ''binary'' \<and> Audit_Score (snd entry) < 1
          \<and> Details_Items (snd entry) = []
          \<longrightarrow> spec_audit_issues entry =
                [\<lparr>AuditID = fst entry, Title = Audit_Title (snd entry),
                  Description = Audit_Description (snd entry),
                  Impact = ''unknown'', Selector = '''', Snippet = ''''\<rparr>])
   \<and> (\<forall>entry \<in> set (Audits lr).
        ScoreDisplayMode (snd entry) = ''binary'' \<and> Audit_Score (snd entry) < 1
          \<and> Details_Items (snd entry) \<noteq> []
          \<longrightarrow> spec_audit_issues entry
                = map (item_issue (fst entry) (snd entry)) (Details_Items (snd entry)))"
  by (simp add: scanPageWithLighthouse_def foldl_audit_step spec_audit_issues_def
      unknown_issue_def)

text \<open>
  The theorem at the audit of \<open>A\<close> in \<open>audit_world\<close>: three issues, two for the items
  of the first audit and the unknown one for the second.
\<close>

theorem scan_issues_per_audit_witness:
  "lighthouse audit_world 0 (apiKey sample_scanner) ''A'' = HttpResponse 200 ''report''
   \<and> json_decode audit_world ''report'' = Inr sample_report
   \<and> Issues (scanPageWithLighthouse audit_world 0 sample_scanner ''A'')
       = concat (map spec_audit_issues (Audits sample_report))
   \<and> length (concat (map spec_audit_issues (Audits sample_report))) = 3"
proof -
  have h1: "lighthouse audit_world 0 (apiKey sample_scanner) ''A'' = HttpResponse 200 ''report''"
    by (simp add: audit_world_def quiet_world_def)
  have h2: "json_decode audit_world ''report'' = Inr sample_report"
    by (simp add: audit_world_def quiet_world_def)
  have n: "length (concat (map spec_audit_issues (Audits sample_report))) = 3"
    by (simp add: sample_report_def spec_audit_issues_def)
  show ?thesis
    using h1 h2 n scan_issues_per_audit [OF h1 h2] by simp
qed

text \<open>
  C8. When the audit call fails (no reply, a status other than 200, or a body that does
  not decode), \<open>scanPageWithLighthouse\<close> returns a page result for that URL with an error
  string that is not empty, score 0 and no issues. It returns a value in every case: the
  function has no other way out.
\<close>

theorem failed_audit_outcome:
  "audit_fails w (lighthouse w i (apiKey s) pageURL) \<Longrightarrow>
   URL (scanPageWithLighthouse w i s pageURL) = pageURL
   \<and> Error (scanPageWithLighthouse w i s pageURL) \<noteq> ''''
   \<and> AccessibilityScore (scanPageWithLighthouse w i s pageURL) = 0
   \<and> Issues (scanPageWithLighthouse w i s pageURL) = []"
  by (auto simp: audit_fails_def scanPageWithLighthouse_def Let_def
      split: api_reply.splits sum.splits)

theorem failed_audit_outcome_witness:
  "audit_fails audit_world (lighthouse audit_world 0 (apiKey sample_scanner) ''C'')
   \<and> URL (scanPageWithLighthouse audit_world 0 sample_scanner ''C'') = ''C''
   \<and> Error (scanPageWithLighthouse audit_world 0 sample_scanner ''C'') \<noteq> ''''
   \<and> AccessibilityScore (scanPageWithLighthouse audit_world 0 sample_scanner ''C'') = 0
   \<and> Issues (scanPageWithLighthouse audit_world 0 sample_scanner ''C'') = []"
proof -
  have h: "audit_fails audit_world (lighthouse audit_world 0 (apiKey sample_scanner) ''C'')"
    by (simp add: audit_fails_def audit_world_def quiet_world_def)
  show ?thesis
    using h failed_audit_outcome [OF h] by simp
qed

section \<open>One iteration of the loop\<close>

lemma extractLinks_scanner:
  "extractLinks w i s u = (r, s1) \<Longrightarrow> s1 = s\<lparr>urlsDiscovered := urlsDiscovered s1\<rparr>"
  by (auto simp: extractLinks_def split: sum.splits prod.splits)

lemma enqueue_links_grows:
  "enqueue_links maxP links vis q = (vis1, q1) \<Longrightarrow>
   \<exists>new. q1 = q @ new \<and> distinct new \<and> (\<forall>x \<in> set new. \<not> is_visited vis x)
         \<and> (\<forall>x. is_visited vis1 x \<longleftrightarrow> is_visited vis x \<or> x \<in> set new)"
proof (induction links arbitrary: vis q)
  case Nil
  then show ?case by simp
next
  case (Cons link links)
  show ?case
  proof (cases "\<not> is_visited vis link \<and> int (length q) < maxP")
    case True
    with Cons.prems have "enqueue_links maxP links (vis(link \<mapsto> True)) (q @ [link]) = (vis1, q1)"
      by simp
    from Cons.IH [OF this] obtain new where
      n: "q1 = (q @ [link]) @ new" "distinct new"
         "\<forall>x \<in> set new. \<not> is_visited (vis(link \<mapsto> True)) x"
         "\<forall>x. is_visited vis1 x \<longleftrightarrow> is_visited (vis(link \<mapsto> True)) x \<or> x \<in> set new"
      by blast
    have v: "is_visited (vis(link \<mapsto> True)) x \<longleftrightarrow> x = link \<or> is_visited vis x" for x
      by (simp add: is_visited_def)
    have "q1 = q @ (link # new)" using n(1) by simp
    moreover have "distinct (link # new)" using n(2,3) v by auto
    moreover have "\<forall>x \<in> set (link # new). \<not> is_visited vis x" using n(3) v True by auto
    moreover have "\<forall>x. is_visited vis1 x \<longleftrightarrow> is_visited vis x \<or> x \<in> set (link # new)"
      using n(4) v by auto
    ultimately show ?thesis by blast
  next
    case False
    with Cons.prems have "enqueue_links maxP links vis q = (vis1, q1)"
      by auto
    from Cons.IH [OF this] show ?thesis .
  qed
qed

lemma follow_links_grows:
  assumes "follow_links w i s q u = (s1, q1)"
  shows "\<exists>new d. q1 = q @ new \<and> distinct new \<and> (\<forall>x \<in> set new. \<not> is_visited (visited s) x)
         \<and> (\<forall>x. is_visited (visited s1) x \<longleftrightarrow> is_visited (visited s) x \<or> x \<in> set new)
         \<and> s1\<lparr>visited := visited s\<rparr> = s\<lparr>urlsDiscovered := d\<rparr>"
proof (cases "extractLinks w i s u")
  case (Pair r s2)
  then obtain d where d: "s2 = s\<lparr>urlsDiscovered := d\<rparr>"
    using extractLinks_scanner by blast
  show ?thesis
  proof (cases r)
    case (Inl err)
    with Pair assms have "s1 = s2" "q1 = q" by (simp_all add: follow_links_def)
    with d show ?thesis by (intro exI [of _ "[]"] exI [of _ d]) simp
  next
    case (Inr links)
    obtain vis2 q2 where e: "enqueue_links (maxPages s2) links (visited s2) q = (vis2, q2)"
      by (cases "enqueue_links (maxPages s2) links (visited s2) q")
    with Pair Inr assms have s1: "s1 = s2\<lparr>visited := vis2\<rparr>" "q1 = q2"
      by (simp_all add: follow_links_def)
    from enqueue_links_grows [OF e] obtain new where
      "q2 = q @ new" "distinct new" "\<forall>x \<in> set new. \<not> is_visited (visited s2) x"
      "\<forall>x. is_visited vis2 x \<longleftrightarrow> is_visited (visited s2) x \<or> x \<in> set new"
      by blast
    with s1 d show ?thesis by (intro exI [of _ new] exI [of _ d]) simp
  qed
qed

text \<open>
  What one iteration does to each loop variable: the queue loses its head and gains new,
  unvisited URLs, which are then visited; the scanner changes in \<open>visited\<close> and
  \<open>urlsDiscovered\<close> only; \<open>urlIndex\<close> goes up by one; the result gains a page result
  exactly when the rank is not below the offset, and its status turns cancelled exactly
  when the context is done.
\<close>

lemma loop_body_step:
  assumes "queue st = u # q"
  shows "\<exists>new d. queue (loop_body w st) = q @ new \<and> distinct new
           \<and> (\<forall>x \<in> set new. \<not> is_visited (visited (scanner st)) x)
           \<and> (\<forall>x. is_visited (visited (scanner (loop_body w st))) x
                    \<longleftrightarrow> is_visited (visited (scanner st)) x \<or> x \<in> set new)
           \<and> (scanner (loop_body w st))\<lparr>visited := visited (scanner st)\<rparr>
               = (scanner st)\<lparr>urlsDiscovered := d\<rparr>"
    and "urlIndex (loop_body w st) = Suc (urlIndex st)"
    and "result (loop_body w st) = (result st)
           \<lparr>PageResults :=
              (if int (urlIndex st) < offset (scanner st) then PageResults (result st)
               else PageResults (result st)
                      @ [scanPageWithLighthouse w (urlIndex st) (scanner st) u]),
            Status := (if ctx_done w (urlIndex st) then ''cancelled''
                       else Status (result st))\<rparr>"
proof -
  have keep: "\<exists>new d. q = q @ new \<and> distinct new
           \<and> (\<forall>x \<in> set new. \<not> is_visited (visited (scanner st)) x)
           \<and> (\<forall>x. is_visited (visited (scanner st)) x
                    \<longleftrightarrow> is_visited (visited (scanner st)) x \<or> x \<in> set new)
           \<and> (scanner st)\<lparr>visited := visited (scanner st)\<rparr>
               = (scanner st)\<lparr>urlsDiscovered := d\<rparr>"
    by (intro exI [of _ "[]"] exI [of _ "urlsDiscovered (scanner st)"]) simp
  obtain s1 q1 where f: "follow_links w (urlIndex st) (scanner st) q u = (s1, q1)"
    by (cases "follow_links w (urlIndex st) (scanner st) q u")
  note g = follow_links_grows [OF f]
  show "\<exists>new d. queue (loop_body w st) = q @ new \<and> distinct new
           \<and> (\<forall>x \<in> set new. \<not> is_visited (visited (scanner st)) x)
           \<and> (\<forall>x. is_visited (visited (scanner (loop_body w st))) x
                    \<longleftrightarrow> is_visited (visited (scanner st)) x \<or> x \<in> set new)
           \<and> (scanner (loop_body w st))\<lparr>visited := visited (scanner st)\<rparr>
               = (scanner st)\<lparr>urlsDiscovered := d\<rparr>"
    using assms f g keep by (simp add: loop_body_def Let_def)
  show "urlIndex (loop_body w st) = Suc (urlIndex st)"
    using assms f by (simp add: loop_body_def Let_def)
  show "result (loop_body w st) = (result st)
           \<lparr>PageResults :=
              (if int (urlIndex st) < offset (scanner st) then PageResults (result st)
               else PageResults (result st)
                      @ [scanPageWithLighthouse w (urlIndex st) (scanner st) u]),
            Status := (if ctx_done w (urlIndex st) then ''cancelled''
                       else Status (result st))\<rparr>"
    using assms f by (simp add: loop_body_def Let_def)
qed

lemma loop_body_config:
  assumes "queue st = u # q"
  shows "offset (scanner (loop_body w st)) = offset (scanner st)"
    and "limit (scanner (loop_body w st)) = limit (scanner st)"
proof -
  from loop_body_step(1) [OF assms, of w] obtain d where
    d: "(scanner (loop_body w st))\<lparr>visited := visited (scanner st)\<rparr>
          = (scanner st)\<lparr>urlsDiscovered := d\<rparr>"
    by blast
  have "offset ((scanner (loop_body w st))\<lparr>visited := visited (scanner st)\<rparr>)
          = offset (scanner st)"
    "limit ((scanner (loop_body w st))\<lparr>visited := visited (scanner st)\<rparr>)
          = limit (scanner st)"
    unfolding d by simp_all
  then show "offset (scanner (loop_body w st)) = offset (scanner st)"
    and "limit (scanner (loop_body w st)) = limit (scanner st)"
    by simp_all
qed

lemma loop_cond_queue: "loop_cond st \<Longrightarrow> \<exists>u q. queue st = u # q"
  by (cases "queue st") (simp_all add: loop_cond_def)

section \<open>The whole loop\<close>

text \<open>
  A property that holds at the start and is kept by every iteration run under the loop
  condition holds when the loop has ended, and the loop condition is false then.
\<close>

lemma crawl_loop_invariant:
  assumes "P st" and "\<And>st. P st \<Longrightarrow> loop_cond st \<Longrightarrow> P (loop_body w st)"
  shows "P (crawl_loop w st) \<and> \<not> loop_cond (crawl_loop w st)"
  using assms
proof (induction w st rule: crawl_loop.induct)
  case (1 w st)
  show ?case
  proof (cases "loop_cond st")
    case True
    then have "P (loop_body w st)" using "1.prems" by blast
    moreover have "crawl_loop w st = crawl_loop w (loop_body w st)"
      using True by (subst crawl_loop.simps) simp
    ultimately show ?thesis
      using True "1.IH" "1.prems"(2) by simp
  next
    case False
    then have "crawl_loop w st = st"
      by (subst crawl_loop.simps) simp
    with False "1.prems"(1) show ?thesis by simp
  qed
qed

lemma crawl_iter_Suc:
  "crawl_iter w (Suc k) st0 =
     (if loop_cond (crawl_iter w k st0) then loop_body w (crawl_iter w k st0)
      else crawl_iter w k st0)"
proof (induction k arbitrary: st0)
  case 0
  show ?case by simp
next
  case (Suc k)
  show ?case
  proof (cases "loop_cond st0")
    case True
    then have "crawl_iter w (Suc (Suc k)) st0 = crawl_iter w (Suc k) (loop_body w st0)"
      by simp
    also have "\<dots> = (if loop_cond (crawl_iter w k (loop_body w st0))
                     then loop_body w (crawl_iter w k (loop_body w st0))
                     else crawl_iter w k (loop_body w st0))"
      by (rule Suc.IH)
    finally show ?thesis using True by simp
  next
    case False
    then show ?thesis by simp
  qed
qed

lemma foldl_urls: "foldl (\<lambda>acc pageResult. acc @ [URL pageResult]) urls ps = urls @ map URL ps"
  by (induction ps arbitrary: urls) simp_all

lemma crawl_finish_lists:
  "PageResults (crawl_finish st) = PageResults (result st)"
  "UrlsVisited (crawl_finish st) = UrlsVisited (result st) @ map URL (PageResults (result st))"
  "UrlsDiscovered (crawl_finish st) = urlsDiscovered (scanner st)"
  "Config (crawl_finish st) = Config (result st)"
  by (simp_all add: crawl_finish_def Let_def foldl_urls)

section \<open>No URL is audited twice\<close>

lemma audited_once_init: "audited_once (crawl_init w s)"
  by (simp add: audited_once_def crawl_init_def is_visited_def)

lemma audited_once_step:
  assumes "audited_once st" and "loop_cond st"
  shows "audited_once (loop_body w st)"
proof -
  from assms(2) obtain u q where q: "queue st = u # q"
    using loop_cond_queue by blast
  from loop_body_step(1) [OF q, of w] obtain new d where
    n: "queue (loop_body w st) = q @ new" "distinct new"
       "\<forall>x \<in> set new. \<not> is_visited (visited (scanner st)) x"
       "\<forall>x. is_visited (visited (scanner (loop_body w st))) x
              \<longleftrightarrow> is_visited (visited (scanner st)) x \<or> x \<in> set new"
    by blast
  note r = loop_body_step(3) [OF q, of w]
  show ?thesis
    using assms(1) n unfolding audited_once_def r q
    by (auto simp: scan_URL)
qed

text \<open>
  C10. Within one run no URL is audited more than once: the entries of \<open>urls_visited\<close>,
  which are the URLs of \<open>page_results\<close> in order, are pairwise distinct. The seed is
  marked visited at the start, and a link enters the queue only when it is not marked
  visited, and is marked at that moment.
\<close>

theorem no_url_audited_twice:
  "distinct (UrlsVisited (crawlAndScan w s))
   \<and> UrlsVisited (crawlAndScan w s) = map URL (PageResults (crawlAndScan w s))"
proof -
  have "audited_once (crawl_final w s)"
    unfolding crawl_final_def
    using crawl_loop_invariant [of audited_once, OF audited_once_init audited_once_step]
    by blast
  then show ?thesis
    by (simp add: crawlAndScan_def crawl_finish_lists audited_once_def)
qed

theorem no_url_audited_twice_witness:
  "UrlsVisited (crawlAndScan small_site (NewAccessibilityScanner ''k'' ''A'' 50 0 5))
     = [''A'', ''B'', ''C'', ''D'']
   \<and> distinct (UrlsVisited (crawlAndScan small_site (NewAccessibilityScanner ''k'' ''A'' 50 0 5)))"
proof -
  have "UrlsVisited (crawlAndScan small_site (NewAccessibilityScanner ''k'' ''A'' 50 0 5))
          = [''A'', ''B'', ''C'', ''D'']"
    by code_simp
  then show ?thesis
    using no_url_audited_twice [of small_site "NewAccessibilityScanner ''k'' ''A'' 50 0 5"]
    by blast
qed

section \<open>The status\<close>

lemma status_tracks_init: "status_tracks w (crawl_init w s)"
  by (simp add: status_tracks_def crawl_init_def cancel_seen_def)

lemma status_tracks_step:
  assumes "status_tracks w st" and "loop_cond st"
  shows "status_tracks w (loop_body w st)"
proof -
  from assms(2) obtain u q where q: "queue st = u # q"
    using loop_cond_queue by blast
  show ?thesis
    using assms(1) unfolding status_tracks_def loop_body_step(2,3) [OF q]
    by (simp add: cancel_seen_def)
qed

lemma crawl_finish_status:
  "Status (result st) = (if c then ''cancelled'' else ''completed'') \<Longrightarrow>
   Status (crawl_finish st) = status_classifier c (PageResults (result st))"
  by (simp add: crawl_finish_def status_classifier_def Let_def list_ex_iff)

text \<open>
  C5. The status of the report is the specification's classifier applied to whether the
  cancellation signal was seen by an iteration of the run and to the page results:
  cancelled when it was seen; otherwise failed when there is no page result; otherwise
  partial when a page result carries an error; otherwise completed.
\<close>

theorem status_is_classified:
  "Status (crawlAndScan w s)
     = status_classifier (cancel_seen w (urlIndex (crawl_final w s)))
         (PageResults (crawlAndScan w s))"
proof -
  have "status_tracks w (crawl_final w s)"
    unfolding crawl_final_def
    using crawl_loop_invariant [of "status_tracks w", OF status_tracks_init status_tracks_step]
    by blast
  then show ?thesis
    unfolding crawlAndScan_def crawl_finish_lists status_tracks_def
    by (rule crawl_finish_status)
qed

text \<open>
  The four branches of the classifier, and the theorem at a run of \<open>audit_world\<close> in
  which the audit of \<open>A\<close> succeeds and the audit of \<open>B\<close> fails.
\<close>

theorem status_is_classified_witness:
  "status_classifier True [] = ''cancelled''
   \<and> status_classifier False [] = ''failed''
   \<and> status_classifier False [scanPageWithLighthouse audit_world 0 sample_scanner ''B'']
       = ''partial''
   \<and> status_classifier False [scanPageWithLighthouse audit_world 0 sample_scanner ''A'']
       = ''completed''
   \<and> Status (crawlAndScan (audit_world\<lparr>fetch := fetch small_site\<rparr>)
               (NewAccessibilityScanner ''k'' ''A'' 50 0 2)) = ''partial''"
proof -
  let ?w = "audit_world\<lparr>fetch := fetch small_site\<rparr>"
  let ?s = "NewAccessibilityScanner ''k'' ''A'' 50 0 2"
  have c: "status_classifier True [] = ''cancelled''
           \<and> status_classifier False [] = ''failed''
           \<and> status_classifier False [scanPageWithLighthouse audit_world 0 sample_scanner ''B'']
               = ''partial''
           \<and> status_classifier False [scanPageWithLighthouse audit_world 0 sample_scanner ''A'']
               = ''completed''"
    by (simp add: status_classifier_def scanPageWithLighthouse_def audit_world_def
        quiet_world_def)
  have r: "status_classifier (cancel_seen ?w (urlIndex (crawl_final ?w ?s)))
             (PageResults (crawlAndScan ?w ?s)) = ''partial''"
    by code_simp
  show ?thesis
    using c r status_is_classified [of ?w ?s] by simp
qed

section \<open>The window\<close>

lemma in_window_init: "0 \<le> limit s \<Longrightarrow> in_window w s (crawl_init w s)"
  by (simp add: in_window_def) (simp add: crawl_init_def)

lemma in_window_step:
  assumes inv: "in_window w s st" and c: "loop_cond st"
  shows "in_window w s (loop_body w st)"
proof -
  from c obtain u q where q: "queue st = u # q"
    using loop_cond_queue by blast
  let ?k = "urlIndex st"
  let ?p = "scanPageWithLighthouse w ?k (scanner st) u"
  have st: "st = crawl_iter w ?k (crawl_init w s)"
    and off: "offset (scanner st) = offset s" and lim: "limit (scanner st) = limit s"
    and old: "\<forall>p \<in> set (PageResults (result st)). \<exists>k. audited_at w s k p"
    using inv by (simp_all add: in_window_def)
  have idx: "urlIndex (loop_body w st) = Suc ?k"
    by (rule loop_body_step(2) [OF q])
  have res: "PageResults (result (loop_body w st))
               = (if int ?k < offset s then PageResults (result st)
                  else PageResults (result st) @ [?p])"
    unfolding loop_body_step(3) [OF q] off by simp
  have "crawl_iter w (Suc ?k) (crawl_init w s) = loop_body w st"
    unfolding crawl_iter_Suc using st c by simp
  then have a: "loop_body w st = crawl_iter w (urlIndex (loop_body w st)) (crawl_init w s)"
    unfolding idx by simp
  have b: "offset (scanner (loop_body w st)) = offset s"
    "limit (scanner (loop_body w st)) = limit s"
    using loop_body_config [OF q] off lim by simp_all
  have "int (length (PageResults (result st))) < limit s"
    using c lim by (simp add: loop_cond_def)
  then have l: "int (length (PageResults (result (loop_body w st)))) \<le> limit s"
    unfolding res by simp
  have e: "\<forall>p \<in> set (PageResults (result (loop_body w st))). \<exists>k. audited_at w s k p"
  proof (cases "int ?k < offset s")
    case True
    with old show ?thesis unfolding res by simp
  next
    case False
    have "audited_at w s ?k ?p"
      unfolding audited_at_def Let_def st [symmetric]
      using c q False res by (simp add: scan_URL)
    with old False show ?thesis unfolding res by auto
  qed
  show ?thesis
    unfolding in_window_def using a b l e by blast
qed

text \<open>
  The loop variables at the end of a run are those at the top of iteration \<open>urlIndex\<close>:
  the loop cut after that many iterations is the whole loop.
\<close>

lemma crawl_final_is_iter:
  assumes "0 \<le> limit s"
  shows "crawl_final w s = crawl_iter w (urlIndex (crawl_final w s)) (crawl_init w s)"
proof -
  have "in_window w s (crawl_final w s)"
    unfolding crawl_final_def
    using crawl_loop_invariant [of "in_window w s", OF in_window_init [OF assms] in_window_step]
    by blast
  then show ?thesis
    unfolding in_window_def by blast
qed

text \<open>
  C6. In every run started with a limit that is not negative (\<open>handleScan\<close> starts runs
  with a limit from 1 to 100 only) the number of page results is at most the limit, and
  every page result was produced by an iteration that took its URL from the head of the
  queue at a rank \<open>urlIndex\<close> not below the offset.
\<close>

theorem page_results_within_window:
  assumes "0 \<le> limit s"
  shows "int (length (PageResults (crawlAndScan w s))) \<le> limit s
         \<and> (\<forall>p \<in> set (PageResults (crawlAndScan w s)). \<exists>k. audited_at w s k p)"
proof -
  have "in_window w s (crawl_final w s)"
    unfolding crawl_final_def
    using crawl_loop_invariant [of "in_window w s", OF in_window_init [OF assms] in_window_step]
    by blast
  then show ?thesis
    by (simp add: crawlAndScan_def crawl_finish_lists in_window_def)
qed

theorem page_results_within_window_witness:
  "0 \<le> limit sample_scanner
   \<and> PageResults (crawlAndScan small_site sample_scanner) \<noteq> []
   \<and> int (length (PageResults (crawlAndScan small_site sample_scanner))) \<le> limit sample_scanner
   \<and> (\<exists>k. audited_at small_site sample_scanner k
              (hd (PageResults (crawlAndScan small_site sample_scanner))))"
proof -
  have h: "0 \<le> limit sample_scanner"
    by (simp add: sample_scanner_def NewAccessibilityScanner_def)
  have ne: "PageResults (crawlAndScan small_site sample_scanner) \<noteq> []"
    by code_simp
  then have "hd (PageResults (crawlAndScan small_site sample_scanner))
               \<in> set (PageResults (crawlAndScan small_site sample_scanner))"
    by simp
  then show ?thesis
    using h ne page_results_within_window [OF h, of small_site] by blast
qed

section \<open>Request validation\<close>

lemma config_kept_step:
  assumes "config_kept s st" and "loop_cond st"
  shows "config_kept s (loop_body w st)"
proof -
  from assms(2) obtain u q where q: "queue st = u # q"
    using loop_cond_queue by blast
  show ?thesis
    using assms(1) unfolding config_kept_def loop_body_step(3) [OF q] by simp
qed

lemma crawlAndScan_Config:
  "Config (crawlAndScan w s) = \<lparr>MaxPages = maxPages s, Offset = offset s, Limit = limit s\<rparr>"
proof -
  have "config_kept s (crawl_init w s)"
    by (simp add: config_kept_def crawl_init_def)
  then have "config_kept s (crawl_final w s)"
    unfolding crawl_final_def
    using crawl_loop_invariant [of "config_kept s", OF _ config_kept_step]
    by blast
  then show ?thesis
    by (simp add: crawlAndScan_def crawl_finish_lists config_kept_def)
qed

text \<open>
  C9. For a POST request whose URL passes the URL checks: a \<open>max_pages\<close> of 0 is
  answered exactly as a \<open>max_pages\<close> of 50, and a \<open>limit\<close> of 0 exactly as a \<open>limit\<close> of
  5; the request is rejected as invalid \<open>max_pages\<close> exactly when \<open>max_pages\<close> is
  negative or above 1000, and as invalid \<open>limit\<close> exactly when \<open>max_pages\<close> is accepted
  and \<open>limit\<close> is negative or above 100; and with both fields 0, an offset that is not
  negative and an API key, the scan runs with the configuration 50 and 5.
\<close>

theorem zero_is_default:
  assumes "Req_URL req \<noteq> ''''" and "url_parses w (Req_URL req)"
  shows "(Req_MaxPages req = 0 \<longrightarrow>
            handleScan w ''POST'' (Some req)
              = handleScan w ''POST'' (Some (req\<lparr>Req_MaxPages := 50\<rparr>)))
       \<and> (Req_Limit req = 0 \<longrightarrow>
            handleScan w ''POST'' (Some req)
              = handleScan w ''POST'' (Some (req\<lparr>Req_Limit := 5\<rparr>)))
       \<and> (handleScan w ''POST'' (Some req) = invalid_max_pages
            \<longleftrightarrow> Req_MaxPages req < 0 \<or> 1000 < Req_MaxPages req)
       \<and> (handleScan w ''POST'' (Some req) = invalid_limit
            \<longleftrightarrow> \<not> (Req_MaxPages req < 0 \<or> 1000 < Req_MaxPages req)
                \<and> (Req_Limit req < 0 \<or> 100 < Req_Limit req))
       \<and> (Req_MaxPages req = 0 \<and> Req_Limit req = 0 \<and> 0 \<le> Req_Offset req
            \<and> getAPIKey w \<noteq> '''' \<longrightarrow>
            (\<exists>r. handleScan w ''POST'' (Some req) = Inr r
                  \<and> Config r = \<lparr>MaxPages = 50, Offset = Req_Offset req, Limit = 5\<rparr>))"
proof (intro conjI impI)
  assume "Req_MaxPages req = 0"
  then show "handleScan w ''POST'' (Some req)
               = handleScan w ''POST'' (Some (req\<lparr>Req_MaxPages := 50\<rparr>))"
    using assms by (simp add: handleScan_def Let_def)
next
  assume "Req_Limit req = 0"
  then show "handleScan w ''POST'' (Some req)
               = handleScan w ''POST'' (Some (req\<lparr>Req_Limit := 5\<rparr>))"
    using assms by (simp add: handleScan_def Let_def)
next
  show "handleScan w ''POST'' (Some req) = invalid_max_pages
          \<longleftrightarrow> Req_MaxPages req < 0 \<or> 1000 < Req_MaxPages req"
    using assms by (auto simp: handleScan_def Let_def invalid_max_pages_def sendError_def)
next
  show "handleScan w ''POST'' (Some req) = invalid_limit
          \<longleftrightarrow> \<not> (Req_MaxPages req < 0 \<or> 1000 < Req_MaxPages req)
              \<and> (Req_Limit req < 0 \<or> 100 < Req_Limit req)"
    using assms by (auto simp: handleScan_def Let_def invalid_limit_def sendError_def)
next
  assume "Req_MaxPages req = 0 \<and> Req_Limit req = 0 \<and> 0 \<le> Req_Offset req
            \<and> getAPIKey w \<noteq> ''''"
  then show "\<exists>r. handleScan w ''POST'' (Some req) = Inr r
                  \<and> Config r = \<lparr>MaxPages = 50, Offset = Req_Offset req, Limit = 5\<rparr>"
    using assms
    by (simp add: handleScan_def Let_def crawlAndScan_Config NewAccessibilityScanner_def)
qed

theorem zero_is_default_witness:
  "Req_URL zero_request \<noteq> '''' \<and> url_parses small_site (Req_URL zero_request)
   \<and> Req_MaxPages zero_request = 0 \<and> Req_Limit zero_request = 0
   \<and> 0 \<le> Req_Offset zero_request \<and> getAPIKey small_site \<noteq> ''''
   \<and> handleScan small_site ''POST'' (Some zero_request) \<noteq> invalid_max_pages
   \<and> handleScan small_site ''POST'' (Some zero_request) \<noteq> invalid_limit
   \<and> (\<exists>r. handleScan small_site ''POST'' (Some zero_request) = Inr r
          \<and> Config r = \<lparr>MaxPages = 50, Offset = 0, Limit = 5\<rparr>)"
proof -
  have h1: "Req_URL zero_request \<noteq> ''''"
    by (simp add: zero_request_def)
  have h2: "url_parses small_site (Req_URL zero_request)"
    by (simp add: zero_request_def small_site_def quiet_world_def)
  have h3: "Req_MaxPages zero_request = 0 \<and> Req_Limit zero_request = 0
            \<and> 0 \<le> Req_Offset zero_request \<and> getAPIKey small_site \<noteq> ''''"
    by (simp add: zero_request_def small_site_def quiet_world_def getAPIKey_def)
  have o: "Req_Offset zero_request = 0"
    by (simp add: zero_request_def)
  note t = zero_is_default [OF h1 h2]
  have a: "handleScan small_site ''POST'' (Some zero_request) \<noteq> invalid_max_pages"
    using t [THEN conjunct2, THEN conjunct2, THEN conjunct1] h3 by simp
  have b: "handleScan small_site ''POST'' (Some zero_request) \<noteq> invalid_limit"
    using t [THEN conjunct2, THEN conjunct2, THEN conjunct2, THEN conjunct1] h3 by simp
  have c: "\<exists>r. handleScan small_site ''POST'' (Some zero_request) = Inr r
          \<and> Config r = \<lparr>MaxPages = 50, Offset = 0, Limit = 5\<rparr>"
    using t [THEN conjunct2, THEN conjunct2, THEN conjunct2, THEN conjunct2] h3 o by simp
  show ?thesis
    using h1 h2 h3 a b c by blast
qed

section \<open>The discovery record\<close>

lemma record_link_ok: "links_ok d0 acc \<Longrightarrow> links_ok d0 (record_link finalURL acc)"
  by (cases acc) (auto simp: links_ok_def record_link_def)

lemma scan_attrs_ok: "links_ok d0 acc \<Longrightarrow> links_ok d0 (scan_attrs rs attrs acc)"
  by (induction rs attrs acc rule: scan_attrs.induct)
    (auto simp: record_link_ok split: href.splits)

lemma fold_ok:
  assumes "\<And>x acc. x \<in> set xs \<Longrightarrow> P acc \<Longrightarrow> P (f x acc)" and "P acc"
  shows "P (fold f xs acc)"
  using assms by (induction xs arbitrary: acc) simp_all

lemma findLinks_ok: "links_ok d0 acc \<Longrightarrow> links_ok d0 (findLinks rs doc acc)"
proof (induction rs doc acc rule: findLinks.induct)
  case (1 rs t d attrs children acc)
  let ?acc = "if t = ElementNode \<and> d = ''a'' then scan_attrs rs attrs acc else acc"
  have "links_ok d0 ?acc"
    using "1.prems" by (simp add: scan_attrs_ok)
  then have "links_ok d0 (fold (findLinks rs) children ?acc)"
    using "1.IH" by (intro fold_ok [where P = "links_ok d0"]) blast+
  then show ?case by simp
qed

lemma extractLinks_ok:
  assumes "extractLinks w i s u = (r, s1)" and "distinct (urlsDiscovered s)"
  shows "distinct (urlsDiscovered s1) \<and> set (urlsDiscovered s) \<subseteq> set (urlsDiscovered s1)
         \<and> (\<forall>links. r = Inr links \<longrightarrow> set links \<subseteq> set (urlsDiscovered s1))"
proof (cases "fetch w i (baseURL s) u")
  case (Inl err)
  with assms show ?thesis by (auto simp: extractLinks_def)
next
  case (Inr doc)
  have "links_ok (urlsDiscovered s) ([], urlsDiscovered s)"
    using assms(2) by (simp add: links_ok_def)
  then have "links_ok (urlsDiscovered s)
               (findLinks (resolve w (baseURL s) u) doc ([], urlsDiscovered s))"
    by (rule findLinks_ok)
  with Inr assms(1) show ?thesis
    by (auto simp: extractLinks_def links_ok_def split: prod.splits)
qed

lemma enqueue_links_subset:
  "enqueue_links maxP links vis q = (vis1, q1) \<Longrightarrow> set q1 \<subseteq> set q \<union> set links"
proof (induction links arbitrary: vis q)
  case Nil
  then show ?case by simp
next
  case (Cons link links)
  show ?case
  proof (cases "\<not> is_visited vis link \<and> int (length q) < maxP")
    case True
    with Cons.prems have "enqueue_links maxP links (vis(link \<mapsto> True)) (q @ [link]) = (vis1, q1)"
      by simp
    from Cons.IH [OF this] show ?thesis by auto
  next
    case False
    with Cons.prems have "enqueue_links maxP links vis q = (vis1, q1)"
      by auto
    from Cons.IH [OF this] show ?thesis by auto
  qed
qed

lemma follow_links_ok:
  assumes "follow_links w i s q u = (s1, q1)" and "distinct (urlsDiscovered s)"
  shows "distinct (urlsDiscovered s1) \<and> set (urlsDiscovered s) \<subseteq> set (urlsDiscovered s1)
         \<and> set q1 \<subseteq> set q \<union> set (urlsDiscovered s1)"
proof (cases "extractLinks w i s u")
  case (Pair r s2)
  note e = extractLinks_ok [OF Pair assms(2)]
  show ?thesis
  proof (cases r)
    case (Inl err)
    with Pair assms(1) have "s1 = s2" "q1 = q" by (simp_all add: follow_links_def)
    with e show ?thesis by auto
  next
    case (Inr links)
    obtain vis2 q2 where q2: "enqueue_links (maxPages s2) links (visited s2) q = (vis2, q2)"
      by (cases "enqueue_links (maxPages s2) links (visited s2) q")
    with Pair Inr assms(1) have s1: "s1 = s2\<lparr>visited := vis2\<rparr>" "q1 = q2"
      by (simp_all add: follow_links_def)
    have "set links \<subseteq> set (urlsDiscovered s2)" using e Inr by blast
    with enqueue_links_subset [OF q2] e s1 show ?thesis by auto
  qed
qed

lemma discovered_ok_step:
  assumes inv: "discovered_ok st" and c: "loop_cond st"
  shows "discovered_ok (loop_body w st)"
proof -
  from c obtain u q where q: "queue st = u # q"
    using loop_cond_queue by blast
  have d: "distinct (urlsDiscovered (scanner st))"
    and sub: "set (map URL (PageResults (result st))) \<subseteq> set (urlsDiscovered (scanner st))"
      "u \<in> set (urlsDiscovered (scanner st))" "set q \<subseteq> set (urlsDiscovered (scanner st))"
    using inv q by (simp_all add: discovered_ok_def)
  obtain s1 q1 where f: "follow_links w (urlIndex st) (scanner st) q u = (s1, q1)"
    by (cases "follow_links w (urlIndex st) (scanner st) q u")
  note g = follow_links_ok [OF f d]
  have "distinct (urlsDiscovered (scanner (loop_body w st)))
        \<and> set (urlsDiscovered (scanner st)) \<subseteq> set (urlsDiscovered (scanner (loop_body w st)))
        \<and> set (queue (loop_body w st)) \<subseteq> set q \<union> set (urlsDiscovered (scanner (loop_body w st)))"
    using q f g d by (simp add: loop_body_def Let_def)
  moreover have "set (map URL (PageResults (result (loop_body w st))))
                   \<subseteq> insert u (set (map URL (PageResults (result st))))"
    unfolding loop_body_step(3) [OF q] by (auto simp: scan_URL)
  ultimately show ?thesis
    using sub unfolding discovered_ok_def by blast
qed

text \<open>
  What does hold of the discovery record of a run of a new scanner: it has no duplicate
  entries, and every audited URL is in it.
\<close>

lemma discovery_record:
  "distinct (UrlsDiscovered (crawlAndScan w (NewAccessibilityScanner key base maxP off lmt)))
   \<and> set (UrlsVisited (crawlAndScan w (NewAccessibilityScanner key base maxP off lmt)))
       \<subseteq> set (UrlsDiscovered (crawlAndScan w (NewAccessibilityScanner key base maxP off lmt)))"
proof -
  let ?s = "NewAccessibilityScanner key base maxP off lmt"
  have "discovered_ok (crawl_init w ?s)"
    by (simp add: discovered_ok_def crawl_init_def NewAccessibilityScanner_def)
  then have "discovered_ok (crawl_final w ?s)"
    unfolding crawl_final_def
    using crawl_loop_invariant [of discovered_ok, OF _ discovered_ok_step]
    by blast
  moreover have "UrlsVisited (result (crawl_final w ?s)) = []"
    using crawl_loop_invariant [of audited_once, OF audited_once_init audited_once_step]
    unfolding crawl_final_def audited_once_def by blast
  ultimately show ?thesis
    by (simp add: crawlAndScan_def crawl_finish_lists discovered_ok_def)
qed

section \<open>Where the code leaves the specification\<close>

text \<open>
  C1. The discovery record should have no duplicate entries and never be longer than
  \<open>max_pages\<close>. It has no duplicates (\<open>discovery_record\<close>), but \<open>extractLinks\<close> appends
  to \<open>s.urlsDiscovered\<close> without looking at \<open>max_pages\<close>, and \<open>crawlAndScan\<close> compares
  \<open>max_pages\<close> with the length of the waiting queue only. On the site of the
  specification's own scenario, with \<open>max_pages = 3\<close>, \<open>offset = 0\<close> and \<open>limit = 2\<close>, the
  record has the four entries \<open>A\<close>, \<open>B\<close>, \<open>C\<close>, \<open>D\<close>.
\<close>

theorem discovery_exceeds_max_pages:
  "UrlsDiscovered (crawlAndScan spec_site (NewAccessibilityScanner ''k'' ''A'' 3 0 2))
     = [''A'', ''B'', ''C'', ''D'']
   \<and> \<not> int (length (UrlsDiscovered
                     (crawlAndScan spec_site (NewAccessibilityScanner ''k'' ''A'' 3 0 2)))) \<le> 3"
  by code_simp

text \<open>
  C2. Once the cancellation signal is seen at the top of an iteration the loop should
  stop: no further URL dequeued, no further audit, no further page result. The \<open>break\<close>
  of line 360 leaves the \<open>select\<close> statement only, so the loop goes on. With the context
  done from the first iteration on, the run still audits \<open>A\<close> and then \<open>B\<close>, and
  reports them under the status cancelled.
\<close>

theorem cancelled_run_goes_on:
  "ctx_done cancelled_site 0
   \<and> Status (crawlAndScan cancelled_site (NewAccessibilityScanner ''k'' ''A'' 3 0 2)) = ''cancelled''
   \<and> UrlsVisited (crawlAndScan cancelled_site (NewAccessibilityScanner ''k'' ''A'' 3 0 2))
       = [''A'', ''B'']
   \<and> TotalPages (crawlAndScan cancelled_site (NewAccessibilityScanner ''k'' ''A'' 3 0 2)) = 2"
  by code_simp

text \<open>
  C3. The audited URLs should be a subsequence of the discovery record. Every audited
  URL is in the record (\<open>discovery_record\<close>), but not always in its order: a link met
  while the queue is full is recorded and not enqueued, and enters the queue later,
  behind links recorded after it. With \<open>max_pages = 1\<close> and \<open>limit = 4\<close> on \<open>small_site\<close>
  the run audits \<open>A\<close>, \<open>B\<close>, \<open>D\<close>, \<open>C\<close> and records \<open>A\<close>, \<open>B\<close>, \<open>C\<close>, \<open>D\<close>.
\<close>

theorem visited_not_subsequence:
  "UrlsVisited (crawlAndScan small_site (NewAccessibilityScanner ''k'' ''A'' 1 0 4))
     = [''A'', ''B'', ''D'', ''C'']
   \<and> UrlsDiscovered (crawlAndScan small_site (NewAccessibilityScanner ''k'' ''A'' 1 0 4))
     = [''A'', ''B'', ''C'', ''D'']
   \<and> \<not> subseq (UrlsVisited (crawlAndScan small_site (NewAccessibilityScanner ''k'' ''A'' 1 0 4)))
              (UrlsDiscovered (crawlAndScan small_site (NewAccessibilityScanner ''k'' ''A'' 1 0 4)))"
  by code_simp

text \<open>
  C4. For a URL dequeued at a rank below the offset there should be no audit and no page
  result, and link extraction exactly when the number of discovered URLs has not reached
  \<open>max_pages\<close>. The code extracts exactly when the rest of the queue is shorter than
  \<open>max_pages\<close> (line 369). With \<open>max_pages = 1\<close> and \<open>offset = 1\<close> the first iteration
  finds the seed \<open>A\<close> at rank 0 with one URL discovered, which is \<open>max_pages\<close>; it adds
  no page result, yet it extracts the links of \<open>A\<close>: the record grows to \<open>A\<close>, \<open>B\<close>, \<open>C\<close>.
\<close>

theorem extraction_after_cap:
  "loop_cond (crawl_init small_site (NewAccessibilityScanner ''k'' ''A'' 1 1 1))
   \<and> queue (crawl_init small_site (NewAccessibilityScanner ''k'' ''A'' 1 1 1)) = [''A'']
   \<and> int (urlIndex (crawl_init small_site (NewAccessibilityScanner ''k'' ''A'' 1 1 1)))
       < offset (NewAccessibilityScanner ''k'' ''A'' 1 1 1)
   \<and> maxPages (NewAccessibilityScanner ''k'' ''A'' 1 1 1)
       \<le> int (length (urlsDiscovered
              (scanner (crawl_init small_site (NewAccessibilityScanner ''k'' ''A'' 1 1 1)))))
   \<and> urlsDiscovered (scanner (loop_body small_site
         (crawl_init small_site (NewAccessibilityScanner ''k'' ''A'' 1 1 1))))
       = [''A'', ''B'', ''C'']
   \<and> PageResults (result (loop_body small_site
         (crawl_init small_site (NewAccessibilityScanner ''k'' ''A'' 1 1 1)))) = []"
  by code_simp

end
